theory Spec2Isabelle
  imports Main "HOL-Library.Sublist"
begin

section \<open>Data model (media/models.py)\<close>

text \<open>
  Rows of the three models of \<^verbatim>\<open>models.py\<close>. A foreign key is the primary key of
  the row it points to. \<^verbatim>\<open>pk\<close> is \<open>None\<close> for an instance that was never
  saved. Timestamps are integers. \<^verbatim>\<open>status\<close> is a \<^verbatim>\<open>CharField\<close>, so it stays a
  string: the views compare it with \<^verbatim>\<open>'published'\<close> and with nothing else.
  \<^verbatim>\<open>featured_image\<close> plays no part in the logic and is left out.
  A string is a list of bytes, a character outside ASCII being the bytes of its UTF-8
  encoding: one such string occurs inside another as bytes exactly when it does as
  characters.
\<close>

record post =
  pk :: "nat option"
  title :: string
  slug :: string
  author :: nat
  content :: string
  status :: string
  created_at :: int
  updated_at :: int

record comment =
  c_pk :: nat
  c_post :: nat
  c_user :: nat
  c_body :: string
  c_created_at :: int

record like =
  l_pk :: nat
  l_post :: nat
  l_user :: nat

text \<open>
  Tags come from the \<^verbatim>\<open>taggit\<close> package: a table of tags, each with its own slug,
  and a table of (tag, post) associations behind \<^verbatim>\<open>Post.tags\<close>.
\<close>

record tag =
  t_pk :: nat
  t_slug :: string

record db =
  posts :: "post list"
  comments :: "comment list"
  likes :: "like list"
  tags :: "tag list"
  tagged :: "(nat \<times> nat) list"

definition empty_db :: db where
  "empty_db = \<lparr>posts = [], comments = [], likes = [], tags = [], tagged = []\<rparr>"

text \<open>The exceptions that leave a view or \<^verbatim>\<open>save\<close>.\<close>

datatype exn = Http404 | MultipleObjectsReturned | IntegrityError | ValueError | LimitOutOfRange

text \<open>A fresh primary key: larger than every key in use.\<close>

definition fresh :: "nat list \<Rightarrow> nat" where
  "fresh ks = Suc (fold max ks 0)"

section \<open>Slug assignment (\<^verbatim>\<open>Post.save\<close>, models.py 27-36)\<close>

text \<open>Python's \<^verbatim>\<open>str\<close> of a non-negative integer, as the f-string renders the counter.\<close>

definition digit :: "nat \<Rightarrow> char" where
  "digit d = char_of (48 + d)"

fun str :: "nat \<Rightarrow> string" where
  "str n = (if n < 10 then [digit n] else str (n div 10) @ [digit (n mod 10)])"

declare str.simps [simp del]

text \<open>\<^verbatim>\<open>f"{base_slug}-{counter}"\<close>\<close>

definition suffixed :: "string \<Rightarrow> nat \<Rightarrow> string" where
  "suffixed base_slug counter = base_slug @ ''-'' @ str counter"

lemma digit_inj: "a < 10 \<Longrightarrow> b < 10 \<Longrightarrow> digit a = digit b \<Longrightarrow> a = b"
proof -
  assume a: "a < 10" and b: "b < 10" and e: "digit a = digit b"
  from e have "of_char (char_of (48 + a) :: char) = (of_char (char_of (48 + b) :: char) :: nat)"
    by (simp add: digit_def)
  with a b show "a = b" by simp
qed

lemma str_nonempty: "str n \<noteq> []"
  by (subst str.simps) simp

lemma str_inj: "str m = str n \<Longrightarrow> m = n"
proof (induction m arbitrary: n rule: str.induct)
  case (1 m)
  show ?case
  proof (cases "m < 10")
    case True
    then have m: "str m = [digit m]" by (subst str.simps) simp
    show ?thesis
    proof (cases "n < 10")
      case True
      then have "str n = [digit n]" by (subst str.simps) simp
      with m "1.prems" have "digit m = digit n" by simp
      with \<open>m < 10\<close> True show ?thesis by (rule digit_inj)
    next
      case False
      then have "str n = str (n div 10) @ [digit (n mod 10)]" by (subst str.simps) simp
      with m "1.prems" have "str (n div 10) = []" by simp
      with str_nonempty show ?thesis by blast
    qed
  next
    case False
    then have m: "str m = str (m div 10) @ [digit (m mod 10)]" by (subst str.simps) simp
    show ?thesis
    proof (cases "n < 10")
      case True
      then have "str n = [digit n]" by (subst str.simps) simp
      with m "1.prems" have "str (m div 10) = []" by simp
      with str_nonempty show ?thesis by blast
    next
      case nf: False
      then have "str n = str (n div 10) @ [digit (n mod 10)]" by (subst str.simps) simp
      with m "1.prems" have q: "str (m div 10) = str (n div 10)"
        and r: "digit (m mod 10) = digit (n mod 10)" by simp_all
      from "1.IH" [OF False q] have "m div 10 = n div 10" .
      moreover from r have "m mod 10 = n mod 10" by (intro digit_inj) simp_all
      ultimately show ?thesis by (metis div_mult_mod_eq)
    qed
  qed
qed

lemma suffixed_inj: "suffixed b m = suffixed b n \<Longrightarrow> m = n"
  by (simp add: suffixed_def str_inj)

lemma suffixed_neq_base: "suffixed b n \<noteq> b"
  by (simp add: suffixed_def)

text \<open>
  The \<^verbatim>\<open>while\<close> loop of \<^verbatim>\<open>save\<close>, with its two variables. \<open>used\<close> is the column of
  slugs stored in the table, which \<^verbatim>\<open>Post.objects.filter(slug=...).exists()\<close> reads.
\<close>

function probe :: "string list \<Rightarrow> string \<Rightarrow> nat \<Rightarrow> string \<Rightarrow> string" where
  "probe used base_slug counter slug_candidate =
     (if slug_candidate \<in> set used
      then probe used base_slug (counter + 1) (suffixed base_slug (counter + 1))
      else slug_candidate)"
  by pat_completeness auto

text \<open>
  The loop ends because the table is finite: \<open>untried b c\<close> holds for the suffixed
  candidates the loop has still to try, and the stored slugs among them get fewer.
\<close>

definition untried :: "string \<Rightarrow> nat \<Rightarrow> string \<Rightarrow> bool" where
  "untried b c s = (\<exists>k>c. s = suffixed b k)"

lemma untried_Suc:
  assumes "untried b (Suc c) s"
  shows "untried b c s"
proof -
  from assms obtain k where "Suc c < k" and "s = suffixed b k"
    unfolding untried_def by blast
  then have "c < k \<and> s = suffixed b k" by simp
  then show ?thesis unfolding untried_def by blast
qed

lemma untried_next: "untried b c (suffixed b (Suc c))"
  unfolding untried_def by blast

lemma not_untried_self: "\<not> untried b c (suffixed b c)"
  unfolding untried_def by (auto dest: suffixed_inj)

lemma filter_filter_imp:
  assumes "\<And>x. P x \<Longrightarrow> Q x"
  shows "filter P (filter Q xs) = filter P xs"
proof -
  have "filter (\<lambda>x. Q x \<and> P x) xs = filter P xs"
    by (rule filter_cong) (use assms in auto)
  then show ?thesis by simp
qed

lemma filter_untried_mono:
  "filter (untried b (Suc c)) used = filter (untried b (Suc c)) (filter (untried b c) used)"
  by (rule filter_filter_imp [symmetric]) (rule untried_Suc)

lemma filter_untried_less:
  assumes "suffixed b (Suc c) \<in> set used"
  shows "length (filter (untried b (Suc c)) used) < length (filter (untried b c) used)"
proof -
  have mem: "suffixed b (Suc c) \<in> set (filter (untried b c) used)"
    using assms untried_next by simp
  have "length (filter (untried b (Suc c)) (filter (untried b c) used))
          < length (filter (untried b c) used)"
    using mem not_untried_self by (rule length_filter_less)
  then show ?thesis
    using filter_untried_mono [of b c used] by simp
qed

lemma filter_untried_le:
  "length (filter (untried b (Suc c)) used) \<le> length (filter (untried b c) used)"
proof -
  have "length (filter (untried b (Suc c)) (filter (untried b c) used))
          \<le> length (filter (untried b c) used)"
    by (rule length_filter_le)
  then show ?thesis
    using filter_untried_mono [of b c used] by simp
qed


lemma probe_step_dec:
  assumes mem: "cand \<in> set used"
  shows "2 * length (filter (untried b (Suc c)) used) + (if suffixed b (Suc c) \<in> set used then 1 else 0)
       < 2 * length (filter (untried b c) used) + (if cand \<in> set used then (1::nat) else 0)"
proof (cases "suffixed b (Suc c) \<in> set used")
  case True
  from filter_untried_less [OF True] have "length (filter (untried b (Suc c)) used) < length (filter (untried b c) used)" .
  then have "2 * length (filter (untried b (Suc c)) used) + 1 < 2 * length (filter (untried b c) used) + 1"
    by linarith
  with True mem show ?thesis by (simp only: if_True)
next
  case False
  have "length (filter (untried b (Suc c)) used) \<le> length (filter (untried b c) used)"
    by (rule filter_untried_le)
  then have "2 * length (filter (untried b (Suc c)) used) + 0 < 2 * length (filter (untried b c) used) + 1"
    by linarith
  with False mem show ?thesis by (simp only: if_True if_False)
qed

termination probe
proof (relation "measure (\<lambda>(used, b, c, cand).
         2 * length (filter (untried b c) used) + (if cand \<in> set used then 1 else 0))")
  show "wf (measure (\<lambda>(used, b, c, cand).
         2 * length (filter (untried b c) used) + (if cand \<in> set used then 1 else 0)))"
    by (rule wf_measure)
next
  fix used :: "string list" and base_slug :: string and counter :: nat
    and slug_candidate :: string
  assume mem: "slug_candidate \<in> set used"
  have "2 * length (filter (untried base_slug (Suc counter)) used)
          + (if suffixed base_slug (Suc counter) \<in> set used then 1 else 0)
       < 2 * length (filter (untried base_slug counter) used)
          + (if slug_candidate \<in> set used then (1::nat) else 0)"
    using mem by (rule probe_step_dec)
  then show "((used, base_slug, counter + 1, suffixed base_slug (counter + 1)),
              (used, base_slug, counter, slug_candidate))
     \<in> measure (\<lambda>(used, b, c, cand).
         2 * length (filter (untried b c) used) + (if cand \<in> set used then 1 else 0))"
    unfolding in_measure by (simp only: prod.case Suc_eq_plus1)
qed

declare probe.simps [simp del]

text \<open>
  \<^verbatim>\<open>slugify\<close> is \<^verbatim>\<open>django.utils.text.slugify\<close>, a library function: \<^verbatim>\<open>save\<close> takes
  it as a parameter, and the general theorems hold for every such function. For the
  worked examples the library function is written out for ASCII titles:
  \<^verbatim>\<open>
  value = unicodedata.normalize("NFKD", value).encode("ascii", "ignore").decode("ascii")
  value = re.sub(r"[^\w\s-]", "", value.lower())
  return re.sub(r"[-\s]+", "-", value).strip("-_")
  \<close>
  On an ASCII string the first line changes nothing; bytes from 128 on stand for
  characters outside ASCII, which the model drops (the library may also replace such a
  character by an ASCII letter, so the model speaks for ASCII titles only).
\<close>

definition lower :: "char \<Rightarrow> char" where
  "lower c = (let n = (of_char c :: nat) in if 65 \<le> n \<and> n \<le> 90 then char_of (n + 32) else c)"

definition is_word :: "char \<Rightarrow> bool" where
  "is_word c = (let n = (of_char c :: nat) in
     (48 \<le> n \<and> n \<le> 57) \<or> (65 \<le> n \<and> n \<le> 90) \<or> (97 \<le> n \<and> n \<le> 122) \<or> n = 95)"

definition is_space :: "char \<Rightarrow> bool" where
  "is_space c = (let n = (of_char c :: nat) in (9 \<le> n \<and> n \<le> 13) \<or> (28 \<le> n \<and> n \<le> 32))"

text \<open>\<^verbatim>\<open>re.sub(r"[-\s]+", "-", value)\<close>: \<open>in_run\<close> says that the previous character
  belonged to a run that has already been replaced.\<close>

fun hyphenate :: "bool \<Rightarrow> string \<Rightarrow> string" where
  "hyphenate in_run [] = []"
| "hyphenate in_run (c # cs) =
     (if c = CHR ''-'' \<or> is_space c
      then (if in_run then hyphenate True cs else CHR ''-'' # hyphenate True cs)
      else c # hyphenate False cs)"

definition strip :: "char list \<Rightarrow> string \<Rightarrow> string" where
  "strip chars s = rev (dropWhile (\<lambda>c. c \<in> set chars) (rev (dropWhile (\<lambda>c. c \<in> set chars) s)))"

definition slugify_ascii :: "string \<Rightarrow> string" where
  "slugify_ascii v =
     (let v1 = filter (\<lambda>c. (of_char c :: nat) < 128) v;
          v2 = filter (\<lambda>c. is_word c \<or> is_space c \<or> c = CHR ''-'') (map lower v1)
      in strip ''-_'' (hyphenate False v2))"

text \<open>
  \<^verbatim>\<open>super().save()\<close>, the ORM's \<^verbatim>\<open>Model.save\<close>: an instance without primary key is
  inserted under a fresh key, one with a key replaces the row of that key (or is
  inserted when that row does not exist). \<^verbatim>\<open>unique=True\<close> on \<^verbatim>\<open>slug\<close> makes the
  write fail when another row holds the slug. \<^verbatim>\<open>auto_now_add\<close> and \<^verbatim>\<open>auto_now\<close> set
  the timestamps.
\<close>

definition slugs :: "db \<Rightarrow> string list" where
  "slugs d = map slug (posts d)"

definition model_save :: "int \<Rightarrow> post \<Rightarrow> db \<Rightarrow> exn + (post \<times> db)" where
  "model_save now p d =
     (case pk p of
        None \<Rightarrow>
          if slug p \<in> set (slugs d) then Inl IntegrityError
          else let p' = p\<lparr>pk := Some (fresh (List.map_filter pk (posts d))),
                           created_at := now, updated_at := now\<rparr>
               in Inr (p', d\<lparr>posts := posts d @ [p']\<rparr>)
      | Some i \<Rightarrow>
          if list_ex (\<lambda>q. pk q \<noteq> Some i \<and> slug q = slug p) (posts d) then Inl IntegrityError
          else if list_ex (\<lambda>q. pk q = Some i) (posts d)
          then let p' = p\<lparr>updated_at := now\<rparr>
               in Inr (p', d\<lparr>posts := map (\<lambda>q. if pk q = Some i then p' else q) (posts d)\<rparr>)
          else let p' = p\<lparr>created_at := now, updated_at := now\<rparr>
               in Inr (p', d\<lparr>posts := posts d @ [p']\<rparr>))"

text \<open>\<^verbatim>\<open>Post.save\<close>. An empty string is what Python's \<^verbatim>\<open>not self.slug\<close> tests for.\<close>

definition save :: "(string \<Rightarrow> string) \<Rightarrow> int \<Rightarrow> post \<Rightarrow> db \<Rightarrow> exn + (post \<times> db)" where
  "save slugify now self d =
     (let self' =
        (if slug self = [] then
           (let base_slug = slugify (title self);
                slug_candidate = base_slug;
                counter = 1
            in self\<lparr>slug := probe (slugs d) base_slug counter slug_candidate\<rparr>)
         else self)
      in model_save now self' d)"

section \<open>Requests and responses (media/views.py)\<close>

text \<open>
  \<^verbatim>\<open>request.user\<close> is the anonymous user or a stored user, given by its key;
  \<^verbatim>\<open>is_authenticated\<close> is false for the anonymous user only, and the anonymous user
  equals no author.
\<close>

datatype viewer = AnonymousUser | User nat

fun is_authenticated :: "viewer \<Rightarrow> bool" where
  "is_authenticated AnonymousUser = False"
| "is_authenticated (User u) = True"

record request =
  user :: viewer
  "method" :: string
  GET :: "(string \<times> string) list"
  POST :: "(string \<times> string) list"

text \<open>
  A view ends by raising, by redirecting to a named route or by rendering the detail
  page, and it may queue messages. \<^verbatim>\<open>post.get_absolute_url()\<close> is the route
  \<^verbatim>\<open>post_detail\<close> with the post's slug.
\<close>

datatype level = Info | Success | Warning | Error

datatype route = Post_list | Login | Post_detail string

record detail_context =
  ctx_post :: post
  ctx_comments :: "comment list"
  ctx_form_bound :: bool
  ctx_liked :: bool
  ctx_like_count :: nat

datatype response = Redirect route | Render detail_context

type_synonym outcome = "exn + (response \<times> (level \<times> string) list \<times> db)"

definition get_absolute_url :: "post \<Rightarrow> route" where
  "get_absolute_url p = Post_detail (slug p)"

text \<open>\<^verbatim>\<open>get_object_or_404\<close> on the rows that match the lookup.\<close>

fun get_object_or_404 :: "'a list \<Rightarrow> exn + 'a" where
  "get_object_or_404 [] = Inl Http404"
| "get_object_or_404 [x] = Inr x"
| "get_object_or_404 (x # y # zs) = Inl MultipleObjectsReturned"

text \<open>\<^verbatim>\<open>ordering = ['-created_at']\<close> and \<^verbatim>\<open>order_by('-created_at')\<close>.\<close>

definition newest_first :: "post list \<Rightarrow> post list" where
  "newest_first ps = sort_key (\<lambda>p. - created_at p) ps"

definition newest_first_comments :: "comment list \<Rightarrow> comment list" where
  "newest_first_comments cs = sort_key (\<lambda>c. - c_created_at c) cs"

text \<open>The rows of \<^verbatim>\<open>Like.objects.filter(post=post, user=user)\<close>.\<close>

definition like_rows :: "db \<Rightarrow> nat \<Rightarrow> nat \<Rightarrow> like list" where
  "like_rows d i u = filter (\<lambda>l. l_post l = i \<and> l_user l = u) (likes d)"

definition liked :: "db \<Rightarrow> nat \<Rightarrow> nat \<Rightarrow> bool" where
  "liked d i u = (like_rows d i u \<noteq> [])"

subsection \<open>\<^verbatim>\<open>post_detail\<close> (views.py 49-82)\<close>

text \<open>
  \<^verbatim>\<open>CommentForm\<close> is declared in \<^verbatim>\<open>forms.py\<close>, which is not among the sources. The view
  takes it as the parameter \<open>comment_form\<close>: the body of the comment when the
  submitted data is valid, \<open>None\<close> when it is not. \<open>now\<close> is the clock that
  \<^verbatim>\<open>auto_now_add\<close> reads.
\<close>

definition post_detail ::
  "((string \<times> string) list \<Rightarrow> string option) \<Rightarrow> int \<Rightarrow> request \<Rightarrow> string \<Rightarrow> db \<Rightarrow> outcome" where
  "post_detail comment_form now request slug_arg d =
     (case get_object_or_404 (filter (\<lambda>p. slug p = slug_arg) (posts d)) of
        Inl e \<Rightarrow> Inl e
      | Inr post \<Rightarrow>
          if status post \<noteq> ''published'' \<and> User (author post) \<noteq> user request
          then Inr (Redirect Post_list, [(Warning, ''This post is not published.'')], d)
          else
            let comments_of_post = newest_first_comments
                  (filter (\<lambda>c. Some (c_post c) = pk post) (comments d));
                liked_now = (case user request of
                    AnonymousUser \<Rightarrow> False
                  | User u \<Rightarrow> list_ex (\<lambda>l. Some (l_post l) = pk post \<and> l_user l = u) (likes d));
                page = (\<lambda>bound. Render \<lparr>ctx_post = post, ctx_comments = comments_of_post,
                    ctx_form_bound = bound, ctx_liked = liked_now,
                    ctx_like_count = length (filter (\<lambda>l. Some (l_post l) = pk post) (likes d))\<rparr>)
            in if method request = ''POST'' then
                 (case user request of
                    AnonymousUser \<Rightarrow> Inr (Redirect Login, [(Error, ''Login required to comment.'')], d)
                  | User u \<Rightarrow>
                      (case comment_form (POST request) of
                         None \<Rightarrow> Inr (page True, [], d)
                       | Some body \<Rightarrow>
                           (case pk post of
                              None \<Rightarrow> Inl ValueError
                            | Some i \<Rightarrow>
                                Inr (Redirect (get_absolute_url post), [(Success, ''Comment added.'')],
                                     d\<lparr>comments := comments d @
                                        [\<lparr>c_pk = fresh (map c_pk (comments d)), c_post = i,
                                          c_user = u, c_body = body, c_created_at = now\<rparr>]\<rparr>))))
               else Inr (page False, [], d))"

subsection \<open>\<^verbatim>\<open>like_post\<close> (views.py 127-138)\<close>

text \<open>
  \<^verbatim>\<open>Like.objects.get_or_create(post=post, user=user)\<close>: the matching row and
  \<open>False\<close>, or a new row and \<open>True\<close>; more than one matching row makes the
  \<^verbatim>\<open>get\<close> inside it raise.
\<close>

definition get_or_create :: "nat \<Rightarrow> nat \<Rightarrow> db \<Rightarrow> exn + (like \<times> bool \<times> db)" where
  "get_or_create i u d =
     (case like_rows d i u of
        [] \<Rightarrow> (let l = \<lparr>l_pk = fresh (map l_pk (likes d)), l_post = i, l_user = u\<rparr>
               in Inr (l, True, d\<lparr>likes := likes d @ [l]\<rparr>))
      | [l] \<Rightarrow> Inr (l, False, d)
      | l # l' # ls \<Rightarrow> Inl MultipleObjectsReturned)"

text \<open>\<^verbatim>\<open>like.delete()\<close> removes the row of that key.\<close>

definition delete_like :: "like \<Rightarrow> db \<Rightarrow> db" where
  "delete_like l d = d\<lparr>likes := filter (\<lambda>l'. l_pk l' \<noteq> l_pk l) (likes d)\<rparr>"

definition like_post :: "request \<Rightarrow> string \<Rightarrow> db \<Rightarrow> outcome" where
  "like_post request slug_arg d =
     (case get_object_or_404 (filter (\<lambda>p. slug p = slug_arg) (posts d)) of
        Inl e \<Rightarrow> Inl e
      | Inr post \<Rightarrow>
          (case user request of
             AnonymousUser \<Rightarrow> Inr (Redirect Login, [(Error, ''Login required to like posts.'')], d)
           | User u \<Rightarrow>
               (case pk post of
                  None \<Rightarrow> Inl ValueError
                | Some i \<Rightarrow>
                    (case get_or_create i u d of
                       Inl e \<Rightarrow> Inl e
                     | Inr (like, created, d') \<Rightarrow>
                         if \<not> created
                         then Inr (Redirect (get_absolute_url post), [(Info, ''Like removed.'')],
                                   delete_like like d')
                         else Inr (Redirect (get_absolute_url post), [(Success, ''Post liked.'')],
                                   d')))))"

subsection \<open>Listings (views.py 19-26, 39-42, 120-125; blog_tags.py 8-10)\<close>

text \<open>
  The \<^verbatim>\<open>icontains\<close> lookup is the \<^verbatim>\<open>LIKE\<close> of the database, here that of SQLite, the
  default backend: the query occurs in the field as a contiguous part, and the case of
  the letters \<^verbatim>\<open>A\<close> to \<^verbatim>\<open>Z\<close> is ignored. Every other character, a letter outside
  ASCII too, matches itself only.
\<close>

definition icontains :: "string \<Rightarrow> string \<Rightarrow> bool" where
  "icontains field query = sublist (map lower query) (map lower field)"




text \<open>
  \<^verbatim>\<open>PostListView.get_queryset\<close>; \<open>query\<close> is \<^verbatim>\<open>request.GET.get('q')\<close>, which is the
  last value when the query string gives the key more than once.
\<close>

definition post_list_queryset :: "request \<Rightarrow> db \<Rightarrow> post list" where
  "post_list_queryset request d =
     (let qs = filter (\<lambda>p. status p = ''published'') (posts d);
          query = map_of (rev (GET request)) ''q'';
          qs = (case query of
                  None \<Rightarrow> qs
                | Some q \<Rightarrow> if q \<noteq> [] then filter (\<lambda>p. icontains (title p) q \<or> icontains (content p) q) qs
                            else qs)
      in newest_first qs)"

text \<open>
  \<^verbatim>\<open>TagListView.get_queryset\<close>. The join behind \<^verbatim>\<open>tags__in=[tag]\<close> yields a post once
  for each of its associations with the tag, and \<^verbatim>\<open>distinct()\<close> removes the repeats.
\<close>

definition tag_list_queryset :: "string \<Rightarrow> db \<Rightarrow> exn + post list" where
  "tag_list_queryset tag_slug d =
     (case get_object_or_404 (filter (\<lambda>t. t_slug t = tag_slug) (tags d)) of
        Inl e \<Rightarrow> Inl e
      | Inr tag \<Rightarrow>
          Inr (newest_first (remdups (concat (map
            (\<lambda>p. map (\<lambda>a. p) (filter (\<lambda>a. fst a = t_pk tag \<and> Some (snd a) = pk p) (tagged d)))
            (filter (\<lambda>p. status p = ''published'') (posts d)))))))"

text \<open>
  \<^verbatim>\<open>DashboardView.get_context_data\<close>, for the user that \<^verbatim>\<open>LoginRequiredMixin\<close> has
  let through: each of the user's posts with its \<^verbatim>\<open>like_count\<close>.
\<close>

definition dashboard_my_posts :: "nat \<Rightarrow> db \<Rightarrow> (post \<times> nat) list" where
  "dashboard_my_posts u d =
     map (\<lambda>p. (p, length (filter (\<lambda>l. Some (l_post l) = pk p) (likes d))))
       (newest_first (filter (\<lambda>p. author p = u) (posts d)))"

text \<open>
  \<^verbatim>\<open>recent_posts\<close>. A negative limit makes the slice raise. The slice becomes the
  \<^verbatim>\<open>LIMIT\<close> of the query, which the database takes as a signed 64-bit integer: from
  \<open>2\<^sup>6\<^sup>3 = 9223372036854775808\<close> on, evaluating the query raises.
\<close>

definition recent_posts :: "int \<Rightarrow> db \<Rightarrow> exn + post list" where
  "recent_posts limit d =
     (if limit < 0 then Inl ValueError
      else if 9223372036854775808 \<le> limit then Inl LimitOutOfRange
      else Inr (take (nat limit) (newest_first (filter (\<lambda>p. status p = ''published'') (posts d)))))"

subsection \<open>Deleting a post (\<^verbatim>\<open>on_delete=models.CASCADE\<close>, models.py 45 and 57)\<close>

definition delete_post :: "post \<Rightarrow> db \<Rightarrow> exn + db" where
  "delete_post p d =
     (case pk p of
        None \<Rightarrow> Inl ValueError
      | Some i \<Rightarrow> Inr (d\<lparr>posts := filter (\<lambda>q. pk q \<noteq> Some i) (posts d),
                         comments := filter (\<lambda>c. c_post c \<noteq> i) (comments d),
                         likes := filter (\<lambda>l. l_post l \<noteq> i) (likes d),
                         tagged := filter (\<lambda>a. snd a \<noteq> i) (tagged d)\<rparr>))"

text \<open>The constraint \<^verbatim>\<open>unique_together = ('post', 'user')\<close> as a property of the table.\<close>

definition likes_unique :: "db \<Rightarrow> bool" where
  "likes_unique d = distinct (map (\<lambda>l. (l_post l, l_user l)) (likes d))"

text \<open>A list of posts runs from the newest to the oldest.\<close>

definition descending :: "post list \<Rightarrow> bool" where
  "descending ps = sorted_wrt (\<lambda>p q. created_at q \<le> created_at p) ps"

section \<open>Worked examples\<close>

definition first_post :: post where
  "first_post = \<lparr>pk = None, title = ''My First Post!'', slug = [], author = 1,
     content = ''Hello'', status = ''draft'', created_at = 0, updated_at = 0\<rparr>"

text \<open>
  A small blog: user 1 wrote a published post and a draft, user 2 wrote a published
  post and likes the first post. All three posts carry the tag \<^verbatim>\<open>news\<close>.
\<close>

definition hello_post :: post where
  "hello_post = \<lparr>pk = Some 1, title = ''Hello World'', slug = ''hello-world'', author = 1,
     content = ''First words'', status = ''published'', created_at = 100, updated_at = 100\<rparr>"

definition secret_post :: post where
  "secret_post = \<lparr>pk = Some 2, title = ''Secret plans'', slug = ''secret-plans'', author = 1,
     content = ''Not yet'', status = ''draft'', created_at = 200, updated_at = 200\<rparr>"

definition other_post :: post where
  "other_post = \<lparr>pk = Some 3, title = ''Other'', slug = ''other'', author = 2,
     content = ''Say hello'', status = ''published'', created_at = 300, updated_at = 300\<rparr>"

definition blog :: db where
  "blog = \<lparr>posts = [hello_post, secret_post, other_post], comments = [],
     likes = [\<lparr>l_pk = 1, l_post = 1, l_user = 2\<rparr>],
     tags = [\<lparr>t_pk = 1, t_slug = ''news''\<rparr>],
     tagged = [(1, 1), (1, 2), (1, 3)]\<rparr>"

definition anonymous_get :: request where
  "anonymous_get = \<lparr>user = AnonymousUser, method = ''GET'', GET = [], POST = []\<rparr>"

definition anonymous_comment :: request where
  "anonymous_comment = \<lparr>user = AnonymousUser, method = ''POST'', GET = [],
     POST = [(''body'', ''Nice'')]\<rparr>"


text \<open>A post whose title has no letter or digit, before and after its first save.\<close>

definition bang_post :: post where
  "bang_post = \<lparr>pk = None, title = ''!!!'', slug = [], author = 1,
     content = ''Hello'', status = ''draft'', created_at = 0, updated_at = 0\<rparr>"

definition bang_saved :: post where
  "bang_saved = \<lparr>pk = Some 1, title = ''!!!'', slug = [], author = 1,
     content = ''Hello'', status = ''draft'', created_at = 10, updated_at = 10\<rparr>"




text \<open>
  Modelled from the spec: \<^verbatim>\<open>CommentForm\<close> (\<^verbatim>\<open>forms.py\<close>, not among the sources) accepts a
  submission whose body is present and non-empty.
\<close>

definition body_required :: "(string \<times> string) list \<Rightarrow> string option" where
  "body_required data =
     (case map_of data ''body'' of None \<Rightarrow> None | Some b \<Rightarrow> if b = [] then None else Some b)"

section \<open>Properties of slug assignment\<close>

lemma probe_unused: "probe used b c cand \<notin> set used"
proof (induction used b c cand rule: probe.induct)
  case (1 used base_slug counter slug_candidate)
  then show ?case by (subst probe.simps) simp
qed

lemma probe_free: "cand \<notin> set used \<Longrightarrow> probe used b c cand = cand"
  by (subst probe.simps) simp

lemma probe_suffixed:
  "cand \<in> set used \<Longrightarrow>
     \<exists>k>c. probe used b c cand = suffixed b k \<and> suffixed b k \<notin> set used
          \<and> (\<forall>j. c < j \<and> j < k \<longrightarrow> suffixed b j \<in> set used)"
proof (induction used b c cand rule: probe.induct)
  case (1 used b c cand)
  have step: "probe used b c cand = probe used b (c + 1) (suffixed b (c + 1))"
    using "1.prems" by (subst probe.simps) simp
  show ?case
  proof (cases "suffixed b (c + 1) \<in> set used")
    case False
    then have "probe used b c cand = suffixed b (c + 1)"
      using step by (simp add: probe_free)
    with False have "c < c + 1 \<and> probe used b c cand = suffixed b (c + 1)
        \<and> suffixed b (c + 1) \<notin> set used
        \<and> (\<forall>j. c < j \<and> j < c + 1 \<longrightarrow> suffixed b j \<in> set used)"
      by auto
    then show ?thesis by blast
  next
    case True
    from "1.IH" [OF "1.prems" True] obtain k where k: "c + 1 < k"
      "probe used b (c + 1) (suffixed b (c + 1)) = suffixed b k"
      "suffixed b k \<notin> set used"
      "\<forall>j. c + 1 < j \<and> j < k \<longrightarrow> suffixed b j \<in> set used"
      by blast
    have "\<forall>j. c < j \<and> j < k \<longrightarrow> suffixed b j \<in> set used"
    proof (intro allI impI)
      fix j assume j: "c < j \<and> j < k"
      show "suffixed b j \<in> set used"
      proof (cases "j = c + 1")
        case True
        with \<open>suffixed b (c + 1) \<in> set used\<close> show ?thesis by simp
      next
        case False
        with j have "c + 1 < j \<and> j < k" by simp
        with k(4) show ?thesis by blast
      qed
    qed
    moreover from k(1) have "c < k" by simp
    ultimately have "c < k \<and> probe used b c cand = suffixed b k \<and> suffixed b k \<notin> set used
        \<and> (\<forall>j. c < j \<and> j < k \<longrightarrow> suffixed b j \<in> set used)"
      using step k(2,3) by simp
    then show ?thesis by blast
  qed
qed

lemma model_save_insert:
  assumes "pk p = None" and "slug p \<notin> set (slugs d)"
  shows "\<exists>p'. model_save now p d = Inr (p', d\<lparr>posts := posts d @ [p']\<rparr>)
            \<and> slug p' = slug p \<and> title p' = title p"
  using assms by (simp add: model_save_def Let_def)

lemma save_new:
  assumes "pk p = None" and "slug p = []"
  shows "\<exists>p'. save sl now p d = Inr (p', d\<lparr>posts := posts d @ [p']\<rparr>)
            \<and> slug p' = probe (slugs d) (sl (title p)) 1 (sl (title p))"
proof -
  let ?q = "p\<lparr>slug := probe (slugs d) (sl (title p)) 1 (sl (title p))\<rparr>"
  have "pk ?q = None" using assms(1) by simp
  moreover have "slug ?q \<notin> set (slugs d)" by (simp add: probe_unused)
  ultimately obtain p' where "model_save now ?q d = Inr (p', d\<lparr>posts := posts d @ [p']\<rparr>)"
    "slug p' = slug ?q"
    using model_save_insert by blast
  moreover have "save sl now p d = model_save now ?q d"
    using assms(2) by (simp add: save_def Let_def)
  ultimately show ?thesis by simp
qed

lemma slugs_append: "slugs (d\<lparr>posts := posts d @ [p]\<rparr>) = slugs d @ [slug p]"
  by (simp add: slugs_def)

text \<open>
  C1. Two posts created one after the other with the same title, each with an empty slug
  field, are both stored and receive distinct slugs, whatever the table holds. When the
  slugified title is not yet in use, the first post gets it and the second gets it with
  the suffix \<open>-k\<close> for the least \<open>k \<ge> 2\<close> whose candidate is unused: \<open>-2\<close> when that
  one is free.
\<close>

theorem sequential_slugs_distinct:
  assumes "pk p1 = None" and "slug p1 = []" and "pk p2 = None" and "slug p2 = []"
    and "title p2 = title p1"
  shows "\<exists>p1' d1 p2' d2.
           save slugify now1 p1 d = Inr (p1', d1) \<and> save slugify now2 p2 d1 = Inr (p2', d2)
         \<and> posts d2 = posts d @ [p1', p2']
         \<and> slug p1' \<noteq> slug p2'
         \<and> slug p1' \<notin> set (slugs d) \<and> slug p2' \<notin> set (slugs d)
         \<and> (slugify (title p1) \<notin> set (slugs d) \<longrightarrow>
              slug p1' = slugify (title p1)
            \<and> (\<exists>k\<ge>2. slug p2' = suffixed (slugify (title p1)) k
                    \<and> (\<forall>j. 2 \<le> j \<and> j < k \<longrightarrow> suffixed (slugify (title p1)) j \<in> set (slugs d))))
         \<and> (slugify (title p1) \<notin> set (slugs d) \<and> suffixed (slugify (title p1)) 2 \<notin> set (slugs d)
              \<longrightarrow> slug p2' = suffixed (slugify (title p1)) 2)"
proof -
  let ?b = "slugify (title p1)"
  obtain p1' where s1: "save slugify now1 p1 d = Inr (p1', d\<lparr>posts := posts d @ [p1']\<rparr>)"
    and g1: "slug p1' = probe (slugs d) ?b 1 ?b"
    using save_new [OF assms(1,2)] by blast
  let ?d1 = "d\<lparr>posts := posts d @ [p1']\<rparr>"
  have u1: "slugs ?d1 = slugs d @ [slug p1']" by (rule slugs_append)
  obtain p2' where s2: "save slugify now2 p2 ?d1 = Inr (p2', ?d1\<lparr>posts := posts ?d1 @ [p2']\<rparr>)"
    and g2: "slug p2' = probe (slugs ?d1) ?b 1 ?b"
    using save_new [OF assms(3,4)] assms(5) by metis
  let ?d2 = "?d1\<lparr>posts := posts ?d1 @ [p2']\<rparr>"
  have n1: "slug p1' \<notin> set (slugs d)" using g1 by (simp add: probe_unused)
  have n2: "slug p2' \<notin> set (slugs ?d1)" using g2 by (simp add: probe_unused)
  then have n2': "slug p2' \<noteq> slug p1'" and n2'': "slug p2' \<notin> set (slugs d)"
    by (simp_all add: u1)
  have base: "?b \<notin> set (slugs d) \<longrightarrow>
              slug p1' = ?b
            \<and> (\<exists>k\<ge>2. slug p2' = suffixed ?b k
                    \<and> (\<forall>j. 2 \<le> j \<and> j < k \<longrightarrow> suffixed ?b j \<in> set (slugs d)))"
  proof
    assume free: "?b \<notin> set (slugs d)"
    then have e1: "slug p1' = ?b" using g1 by (simp add: probe_free)
    then have "?b \<in> set (slugs ?d1)" by (simp add: u1)
    from probe_suffixed [OF this, of 1 ?b] obtain k where k: "1 < k"
      "probe (slugs ?d1) ?b 1 ?b = suffixed ?b k"
      "\<forall>j. 1 < j \<and> j < k \<longrightarrow> suffixed ?b j \<in> set (slugs ?d1)"
      by blast
    have "\<forall>j. 2 \<le> j \<and> j < k \<longrightarrow> suffixed ?b j \<in> set (slugs d)"
    proof (intro allI impI)
      fix j assume "2 \<le> j \<and> j < k"
      then have "1 < j \<and> j < k" by simp
      with k(3) have "suffixed ?b j \<in> set (slugs ?d1)" by blast
      then show "suffixed ?b j \<in> set (slugs d)"
        by (simp add: u1 e1 suffixed_neq_base)
    qed
    moreover have "2 \<le> k" using k(1) by simp
    ultimately have "2 \<le> k \<and> slug p2' = suffixed ?b k
        \<and> (\<forall>j. 2 \<le> j \<and> j < k \<longrightarrow> suffixed ?b j \<in> set (slugs d))"
      using g2 k(2) by simp
    then have "\<exists>k\<ge>2. slug p2' = suffixed ?b k
        \<and> (\<forall>j. 2 \<le> j \<and> j < k \<longrightarrow> suffixed ?b j \<in> set (slugs d))"
      by blast
    with e1 show "slug p1' = ?b
            \<and> (\<exists>k\<ge>2. slug p2' = suffixed ?b k
                    \<and> (\<forall>j. 2 \<le> j \<and> j < k \<longrightarrow> suffixed ?b j \<in> set (slugs d)))"
      by simp
  qed
  have two: "?b \<notin> set (slugs d) \<and> suffixed ?b 2 \<notin> set (slugs d) \<longrightarrow> slug p2' = suffixed ?b 2"
  proof
    assume a: "?b \<notin> set (slugs d) \<and> suffixed ?b 2 \<notin> set (slugs d)"
    with base obtain k where k: "2 \<le> k" "slug p2' = suffixed ?b k"
      "\<forall>j. 2 \<le> j \<and> j < k \<longrightarrow> suffixed ?b j \<in> set (slugs d)"
      by blast
    have "k = 2"
    proof (rule ccontr)
      assume "k \<noteq> 2"
      with k(1) have "2 \<le> (2::nat) \<and> 2 < k" by simp
      with k(3) have "suffixed ?b 2 \<in> set (slugs d)" by blast
      with a show False by simp
    qed
    with k(2) show "slug p2' = suffixed ?b 2" by simp
  qed
  have "posts ?d2 = posts d @ [p1', p2']" by simp
  with s1 s2 n1 n2' n2'' base two show ?thesis
    by (intro exI [of _ p1'] exI [of _ ?d1] exI [of _ p2'] exI [of _ ?d2] conjI) simp_all
qed

lemma slugify_first_post: "slugify_ascii ''My First Post!'' = ''my-first-post''"
  by code_simp

lemma suffixed_first_post: "suffixed ''my-first-post'' 2 = ''my-first-post-2''"
  by code_simp

text \<open>
  The end-to-end example: on an empty table the title \<^verbatim>\<open>My First Post!\<close> gives the slug
  \<^verbatim>\<open>my-first-post\<close>, and a second post of that title gives \<^verbatim>\<open>my-first-post-2\<close>.
\<close>

theorem sequential_slugs_witness:
  "\<exists>p1' d1 p2' d2.
      save slugify_ascii 10 first_post empty_db = Inr (p1', d1)
    \<and> save slugify_ascii 20 first_post d1 = Inr (p2', d2)
    \<and> slug p1' = ''my-first-post'' \<and> slug p2' = ''my-first-post-2''"
proof -
  have h: "pk first_post = None" "slug first_post = []" "title first_post = title first_post"
    by (simp_all add: first_post_def)
  have t: "slugify_ascii (title first_post) = ''my-first-post''"
    by (simp add: first_post_def slugify_first_post)
  have e: "slugs empty_db = []" by (simp add: slugs_def empty_db_def)
  from sequential_slugs_distinct [OF h(1) h(2) h(1) h(2) h(3), of slugify_ascii 10 empty_db 20]
  obtain p1' d1 p2' d2 where
    "save slugify_ascii 10 first_post empty_db = Inr (p1', d1)"
    "save slugify_ascii 20 first_post d1 = Inr (p2', d2)"
    "slug p1' = ''my-first-post''" "slug p2' = suffixed ''my-first-post'' 2"
    unfolding t e by auto
  then show ?thesis unfolding suffixed_first_post by blast
qed

section \<open>Properties of the detail view and of likes\<close>

lemma found_one:
  "filter (\<lambda>p. slug p = s) (posts d) = [P] \<Longrightarrow>
     get_object_or_404 (filter (\<lambda>p. slug p = s) (posts d)) = Inr P"
  by simp

lemma found_none:
  "s \<notin> set (slugs d) \<Longrightarrow> get_object_or_404 (filter (\<lambda>p. slug p = s) (posts d)) = Inl Http404"
proof -
  assume "s \<notin> set (slugs d)"
  then have "filter (\<lambda>p. slug p = s) (posts d) = []"
    by (auto simp: slugs_def filter_empty_conv)
  then show ?thesis by simp
qed

lemma post_detail_refused:
  assumes "filter (\<lambda>p. slug p = s) (posts d) = [P]"
    and "status P \<noteq> ''published''" and "user request \<noteq> User (author P)"
  shows "post_detail cf now request s d
           = Inr (Redirect Post_list, [(Warning, ''This post is not published.'')], d)"
  using assms(2,3) unfolding post_detail_def found_one [OF assms(1)] by auto

lemma post_detail_shown:
  assumes "filter (\<lambda>p. slug p = s) (posts d) = [P]"
    and "status P = ''published'' \<or> user request = User (author P)"
    and "method request \<noteq> ''POST''"
  shows "\<exists>ctx. post_detail cf now request s d = Inr (Render ctx, [], d) \<and> ctx_post ctx = P"
  using assms(2,3) unfolding post_detail_def found_one [OF assms(1)] by (auto simp: Let_def)

lemma post_detail_anonymous_comment:
  assumes "filter (\<lambda>p. slug p = s) (posts d) = [P]"
    and "status P = ''published''" and "user request = AnonymousUser"
    and "method request = ''POST''"
  shows "post_detail cf now request s d
           = Inr (Redirect Login, [(Error, ''Login required to comment.'')], d)"
  using assms(2,3,4) unfolding post_detail_def found_one [OF assms(1)] by (simp add: Let_def)

lemma like_post_anonymous:
  assumes "filter (\<lambda>p. slug p = s) (posts d) = [P]" and "user request = AnonymousUser"
  shows "like_post request s d
           = Inr (Redirect Login, [(Error, ''Login required to like posts.'')], d)"
  using assms(2) unfolding like_post_def found_one [OF assms(1)] by simp

text \<open>
  C2. Let \<open>P\<close> be the post that the slug names. If \<open>P\<close> is not published, a viewer
  other than its author (the anonymous viewer too) is redirected to the post list with
  a warning and nothing is stored, whatever the request method; on a request that is
  not a \<^verbatim>\<open>POST\<close> the page of a draft is rendered exactly for the author, and the page
  of a published post is rendered for every viewer.
\<close>

theorem detail_visibility:
  assumes "filter (\<lambda>p. slug p = s) (posts d) = [P]"
  shows "(status P \<noteq> ''published'' \<and> user request \<noteq> User (author P) \<longrightarrow>
            post_detail comment_form now request s d
              = Inr (Redirect Post_list, [(Warning, ''This post is not published.'')], d))
       \<and> (method request \<noteq> ''POST'' \<and> status P \<noteq> ''published'' \<longrightarrow>
            ((\<exists>ctx. post_detail comment_form now request s d = Inr (Render ctx, [], d)
                    \<and> ctx_post ctx = P)
             \<longleftrightarrow> user request = User (author P)))
       \<and> (method request \<noteq> ''POST'' \<and> status P = ''published'' \<longrightarrow>
            (\<exists>ctx. post_detail comment_form now request s d = Inr (Render ctx, [], d)
                    \<and> ctx_post ctx = P))"
proof (intro conjI impI)
  assume "status P \<noteq> ''published'' \<and> user request \<noteq> User (author P)"
  then show "post_detail comment_form now request s d
      = Inr (Redirect Post_list, [(Warning, ''This post is not published.'')], d)"
    using post_detail_refused [OF assms] by blast
next
  assume a: "method request \<noteq> ''POST'' \<and> status P \<noteq> ''published''"
  show "(\<exists>ctx. post_detail comment_form now request s d = Inr (Render ctx, [], d)
                    \<and> ctx_post ctx = P)
             \<longleftrightarrow> user request = User (author P)"
  proof
    assume "\<exists>ctx. post_detail comment_form now request s d = Inr (Render ctx, [], d)
                    \<and> ctx_post ctx = P"
    then obtain ctx where r: "post_detail comment_form now request s d = Inr (Render ctx, [], d)"
      by blast
    show "user request = User (author P)"
    proof (rule ccontr)
      assume "user request \<noteq> User (author P)"
      with a post_detail_refused [OF assms, of request comment_form now] r show False by simp
    qed
  next
    assume "user request = User (author P)"
    with a post_detail_shown [OF assms, of request comment_form now]
    show "\<exists>ctx. post_detail comment_form now request s d = Inr (Render ctx, [], d)
                    \<and> ctx_post ctx = P"
      by blast
  qed
next
  assume "method request \<noteq> ''POST'' \<and> status P = ''published''"
  with post_detail_shown [OF assms, of request comment_form now]
  show "\<exists>ctx. post_detail comment_form now request s d = Inr (Render ctx, [], d)
                    \<and> ctx_post ctx = P"
    by blast
qed

lemma blog_secret: "filter (\<lambda>p. slug p = ''secret-plans'') (posts blog) = [secret_post]"
  by (simp add: blog_def hello_post_def secret_post_def other_post_def)

lemma blog_hello: "filter (\<lambda>p. slug p = ''hello-world'') (posts blog) = [hello_post]"
  by (simp add: blog_def hello_post_def secret_post_def other_post_def)

theorem detail_visibility_witness:
  "post_detail body_required 500 anonymous_get ''secret-plans'' blog
     = Inr (Redirect Post_list, [(Warning, ''This post is not published.'')], blog)
   \<and> (\<exists>ctx. post_detail body_required 500 (anonymous_get\<lparr>user := User 1\<rparr>) ''secret-plans'' blog
              = Inr (Render ctx, [], blog) \<and> ctx_post ctx = secret_post)
   \<and> (\<exists>ctx. post_detail body_required 500 anonymous_get ''hello-world'' blog
              = Inr (Render ctx, [], blog) \<and> ctx_post ctx = hello_post)"
proof -
  have 1: "status secret_post \<noteq> ''published'' \<and> user anonymous_get \<noteq> User (author secret_post)"
    by (simp add: secret_post_def anonymous_get_def)
  have 2: "method (anonymous_get\<lparr>user := User 1\<rparr>) \<noteq> ''POST'' \<and> status secret_post \<noteq> ''published''"
    "user (anonymous_get\<lparr>user := User 1\<rparr>) = User (author secret_post)"
    by (simp_all add: secret_post_def anonymous_get_def)
  have 3: "method anonymous_get \<noteq> ''POST'' \<and> status hello_post = ''published''"
    by (simp add: hello_post_def anonymous_get_def)
  from 1 detail_visibility [OF blog_secret, of anonymous_get body_required 500]
  have a: "post_detail body_required 500 anonymous_get ''secret-plans'' blog
     = Inr (Redirect Post_list, [(Warning, ''This post is not published.'')], blog)"
    by blast
  from 2 detail_visibility [OF blog_secret, of "anonymous_get\<lparr>user := User 1\<rparr>" body_required 500]
  have b: "\<exists>ctx. post_detail body_required 500 (anonymous_get\<lparr>user := User 1\<rparr>) ''secret-plans'' blog
              = Inr (Render ctx, [], blog) \<and> ctx_post ctx = secret_post"
    by blast
  from 3 detail_visibility [OF blog_hello, of anonymous_get body_required 500]
  have c: "\<exists>ctx. post_detail body_required 500 anonymous_get ''hello-world'' blog
              = Inr (Render ctx, [], blog) \<and> ctx_post ctx = hello_post"
    by blast
  from a b c show ?thesis by blast
qed

text \<open>
  C10. For a slug that no stored post has, both \<^verbatim>\<open>post_detail\<close> and \<^verbatim>\<open>like_post\<close>
  raise \<^verbatim>\<open>Http404\<close> for every request: the lookup comes first, so the anonymous
  viewer gets \<^verbatim>\<open>Http404\<close> too and not the redirect to the login page.
\<close>

theorem missing_slug_not_found:
  assumes "s \<notin> set (slugs d)"
  shows "post_detail comment_form now request s d = Inl Http404
       \<and> like_post request s d = Inl Http404"
  unfolding post_detail_def like_post_def found_none [OF assms] by simp

theorem missing_slug_witness:
  "''nowhere'' \<notin> set (slugs blog)
   \<and> post_detail body_required 500 anonymous_get ''nowhere'' blog = Inl Http404
   \<and> like_post anonymous_get ''nowhere'' blog = Inl Http404
   \<and> like_post anonymous_get ''hello-world'' blog
       = Inr (Redirect Login, [(Error, ''Login required to like posts.'')], blog)"
proof -
  have h: "''nowhere'' \<notin> set (slugs blog)"
    by (simp add: slugs_def blog_def hello_post_def secret_post_def other_post_def)
  have "user anonymous_get = AnonymousUser" by (simp add: anonymous_get_def)
  from like_post_anonymous [OF blog_hello this] h
    missing_slug_not_found [OF h, of body_required 500 anonymous_get]
  show ?thesis by simp
qed

text \<open>
  C5 fails for a comment on a draft: the anonymous viewer who posts a comment on the
  draft of the example is sent to the post list with the warning that the post is not
  published, not to the login page.
\<close>

theorem anonymous_comment_on_draft:
  "post_detail body_required 500 anonymous_comment ''secret-plans'' blog
     = Inr (Redirect Post_list, [(Warning, ''This post is not published.'')], blog)
   \<and> post_detail body_required 500 anonymous_comment ''secret-plans'' blog
     \<noteq> Inr (Redirect Login, [(Error, ''Login required to comment.'')], blog)"
proof -
  have "status secret_post \<noteq> ''published''" "user anonymous_comment \<noteq> User (author secret_post)"
    by (simp_all add: secret_post_def anonymous_comment_def)
  from post_detail_refused [OF blog_secret this] show ?thesis by simp
qed

text \<open>
  C5, amended. An anonymous like on any stored post, and an anonymous comment on a
  published post, end in the redirect to the login page with an error message; an
  anonymous request for a post that is not published ends in the redirect to the post
  list with a warning. In each case the stored state is returned unchanged.
\<close>

theorem anonymous_interaction:
  assumes "filter (\<lambda>p. slug p = s) (posts d) = [P]" and "\<not> is_authenticated (user request)"
  shows "like_post request s d
           = Inr (Redirect Login, [(Error, ''Login required to like posts.'')], d)
       \<and> (method request = ''POST'' \<and> status P = ''published'' \<longrightarrow>
            post_detail comment_form now request s d
              = Inr (Redirect Login, [(Error, ''Login required to comment.'')], d))
       \<and> (status P \<noteq> ''published'' \<longrightarrow>
            post_detail comment_form now request s d
              = Inr (Redirect Post_list, [(Warning, ''This post is not published.'')], d))"
proof -
  from assms(2) have anon: "user request = AnonymousUser"
    by (cases "user request") simp_all
  then have "user request \<noteq> User (author P)" by simp
  with anon like_post_anonymous [OF assms(1)] post_detail_anonymous_comment [OF assms(1)]
    post_detail_refused [OF assms(1)]
  show ?thesis by blast
qed

theorem anonymous_interaction_witness:
  "like_post anonymous_comment ''secret-plans'' blog
     = Inr (Redirect Login, [(Error, ''Login required to like posts.'')], blog)
   \<and> post_detail body_required 500 anonymous_comment ''hello-world'' blog
     = Inr (Redirect Login, [(Error, ''Login required to comment.'')], blog)"
proof -
  have n: "\<not> is_authenticated (user anonymous_comment)" by (simp add: anonymous_comment_def)
  have m: "method anonymous_comment = ''POST'' \<and> status hello_post = ''published''"
    by (simp add: anonymous_comment_def hello_post_def)
  from anonymous_interaction [OF blog_secret n, of body_required 500]
  have a: "like_post anonymous_comment ''secret-plans'' blog
     = Inr (Redirect Login, [(Error, ''Login required to like posts.'')], blog)"
    by blast
  from m anonymous_interaction [OF blog_hello n, of body_required 500]
  have b: "post_detail body_required 500 anonymous_comment ''hello-world'' blog
     = Inr (Redirect Login, [(Error, ''Login required to comment.'')], blog)"
    by blast
  from a b show ?thesis by blast
qed









lemma distinct_key_rows:
  "distinct (map f xs) \<Longrightarrow> length (filter (\<lambda>x. f x = k) xs) \<le> 1"
proof (induction xs)
  case Nil
  show ?case by simp
next
  case (Cons x xs)
  then have ih: "length (filter (\<lambda>x. f x = k) xs) \<le> 1" and nx: "f x \<notin> f ` set xs" by simp_all
  show ?case
  proof (cases "f x = k")
    case True
    with nx have "filter (\<lambda>x. f x = k) xs = []"
      unfolding filter_empty_conv by (metis imageI)
    with True show ?thesis by simp
  next
    case False
    with ih show ?thesis by simp
  qed
qed

lemma likes_unique_rows: "likes_unique d \<Longrightarrow> length (like_rows d i u) \<le> 1"
proof -
  assume "likes_unique d"
  then have "length (filter (\<lambda>l. (l_post l, l_user l) = (i, u)) (likes d)) \<le> 1"
    unfolding likes_unique_def by (rule distinct_key_rows)
  then show ?thesis by (simp add: like_rows_def)
qed

lemma likes_unique_filter: "likes_unique d \<Longrightarrow> likes_unique (d\<lparr>likes := filter Q (likes d)\<rparr>)"
  by (simp add: likes_unique_def distinct_map_filter)

lemma likes_unique_frame: "likes d' = likes d \<Longrightarrow> likes_unique d' = likes_unique d"
  by (simp add: likes_unique_def)

lemma get_or_create_unique:
  assumes "likes_unique d" and "get_or_create i u d = Inr (l, created, d')"
  shows "likes_unique d'"
proof (cases "like_rows d i u")
  case Nil
  then have "(i, u) \<notin> (\<lambda>l. (l_post l, l_user l)) ` set (likes d)"
    by (auto simp: like_rows_def filter_empty_conv)
  moreover from Nil assms(2)
  have "d' = d\<lparr>likes := likes d @ [\<lparr>l_pk = fresh (map l_pk (likes d)), l_post = i, l_user = u\<rparr>]\<rparr>"
    by (auto simp: get_or_create_def Let_def)
  ultimately show ?thesis using assms(1) by (simp add: likes_unique_def)
next
  case (Cons x xs)
  with assms show ?thesis
    by (cases xs) (auto simp: get_or_create_def)
qed

lemma like_post_unique:
  assumes "likes_unique d" and "like_post request s d = Inr (r, m, d')"
  shows "likes_unique d'"
proof (cases "get_object_or_404 (filter (\<lambda>p. slug p = s) (posts d))")
  case (Inl e)
  with assms(2) show ?thesis by (simp add: like_post_def)
next
  case (Inr P)
  show ?thesis
  proof (cases "user request")
    case AnonymousUser
    with Inr assms show ?thesis by (auto simp: like_post_def)
  next
    case (User u)
    show ?thesis
    proof (cases "pk P")
      case None
      with Inr User assms(2) show ?thesis by (simp add: like_post_def)
    next
      case (Some i)
      show ?thesis
      proof (cases "get_or_create i u d")
        case (Inl e)
        with Inr User Some assms(2) show ?thesis by (simp add: like_post_def)
      next
        case g: (Inr t)
        obtain l created d1 where t: "t = (l, created, d1)" by (cases t) auto
        from g t have "get_or_create i u d = Inr (l, created, d1)" by simp
        with assms(1) have u1: "likes_unique d1" by (rule get_or_create_unique)
        show ?thesis
        proof (cases created)
          case True
          with Inr User Some g t assms(2) have "d' = d1" by (simp add: like_post_def)
          with u1 show ?thesis by simp
        next
          case False
          with Inr User Some g t assms(2) have "d' = delete_like l d1" by (simp add: like_post_def)
          with u1 show ?thesis by (simp add: delete_like_def likes_unique_filter)
        qed
      qed
    qed
  qed
qed

lemma post_detail_likes:
  assumes "post_detail cf now request s d = Inr (r, m, d')"
  shows "likes d' = likes d"
proof (cases "get_object_or_404 (filter (\<lambda>p. slug p = s) (posts d))")
  case (Inl e)
  with assms show ?thesis by (simp add: post_detail_def)
next
  case (Inr P)
  with assms show ?thesis
    by (auto simp: post_detail_def Let_def split: if_splits viewer.splits option.splits)
qed

lemma model_save_likes: "model_save now p d = Inr (p', d') \<Longrightarrow> likes d' = likes d"
  by (auto simp: model_save_def Let_def split: option.splits if_splits)

lemma save_likes: "save sl now p d = Inr (p', d') \<Longrightarrow> likes d' = likes d"
  unfolding save_def Let_def by (rule model_save_likes)

lemma delete_post_unique:
  assumes "likes_unique d" and "delete_post p d = Inr d'"
  shows "likes_unique d'"
proof (cases "pk p")
  case None
  with assms(2) show ?thesis by (simp add: delete_post_def)
next
  case (Some i)
  with assms(2) have "likes d' = filter (\<lambda>l. l_post l \<noteq> i) (likes d)"
    by (auto simp: delete_post_def)
  with assms(1) show ?thesis by (simp add: likes_unique_def distinct_map_filter)
qed

text \<open>
  C4. The table of likes holds at most one row for each pair of post and user: this holds
  of the empty database and is kept by \<^verbatim>\<open>like_post\<close>, \<^verbatim>\<open>post_detail\<close>,
  \<^verbatim>\<open>Post.save\<close> and the deletion of a post.
\<close>

theorem likes_stay_unique:
  "likes_unique empty_db
   \<and> (likes_unique d \<longrightarrow>
        length (like_rows d i u) \<le> 1
      \<and> (\<forall>r m d'. like_post request s d = Inr (r, m, d') \<longrightarrow> likes_unique d')
      \<and> (\<forall>r m d'. post_detail comment_form now request s d = Inr (r, m, d') \<longrightarrow> likes_unique d')
      \<and> (\<forall>p' d'. save slugify now p d = Inr (p', d') \<longrightarrow> likes_unique d')
      \<and> (\<forall>d'. delete_post p d = Inr d' \<longrightarrow> likes_unique d'))"
proof (intro conjI impI allI)
  show "likes_unique empty_db" by (simp add: likes_unique_def empty_db_def)
next
  assume "likes_unique d"
  then show "length (like_rows d i u) \<le> 1" by (rule likes_unique_rows)
next
  fix r m d' assume "likes_unique d" and "like_post request s d = Inr (r, m, d')"
  then show "likes_unique d'" by (rule like_post_unique)
next
  fix r m d' assume u: "likes_unique d"
    and a: "post_detail comment_form now request s d = Inr (r, m, d')"
  have "likes d' = likes d" using a by (rule post_detail_likes)
  then have "likes_unique d' = likes_unique d" by (rule likes_unique_frame)
  with u show "likes_unique d'" by simp
next
  fix p' d' assume u: "likes_unique d" and a: "save slugify now p d = Inr (p', d')"
  have "likes d' = likes d" using a by (rule save_likes)
  then have "likes_unique d' = likes_unique d" by (rule likes_unique_frame)
  with u show "likes_unique d'" by simp
next
  fix d' assume "likes_unique d" and "delete_post p d = Inr d'"
  then show "likes_unique d'" by (rule delete_post_unique)
qed

lemma like_twice_example:
  "like_post (anonymous_get\<lparr>user := User 1\<rparr>) ''hello-world'' blog
     = Inr (Redirect (Post_detail ''hello-world''), [(Success, ''Post liked.'')],
            blog\<lparr>likes := [\<lparr>l_pk = 1, l_post = 1, l_user = 2\<rparr>, \<lparr>l_pk = 2, l_post = 1, l_user = 1\<rparr>]\<rparr>)"
  by code_simp

theorem likes_stay_unique_witness:
  "likes_unique blog
   \<and> likes_unique (blog\<lparr>likes := [\<lparr>l_pk = 1, l_post = 1, l_user = 2\<rparr>, \<lparr>l_pk = 2, l_post = 1, l_user = 1\<rparr>]\<rparr>)
   \<and> length (like_rows blog 1 2) \<le> 1"
proof -
  have u: "likes_unique blog" by (simp add: likes_unique_def blog_def)
  from u like_twice_example
    likes_stay_unique [of blog 1 2 "anonymous_get\<lparr>user := User 1\<rparr>" "''hello-world''"]
  show ?thesis by blast
qed

text \<open>The hypothesis that the slug names one post holds of every stored post when slugs are unique.\<close>

lemma unique_key_lookup:
  "distinct (map f xs) \<Longrightarrow> x \<in> set xs \<Longrightarrow> filter (\<lambda>y. f y = f x) xs = [x]"
proof (induction xs)
  case Nil
  then show ?case by simp
next
  case (Cons a xs)
  then have na: "f a \<notin> f ` set xs" and dx: "distinct (map f xs)" by simp_all
  show ?case
  proof (cases "x = a")
    case True
    have "filter (\<lambda>y. f y = f a) xs = []"
      unfolding filter_empty_conv using na by (metis imageI)
    with True show ?thesis by simp
  next
    case False
    with Cons.prems have xin: "x \<in> set xs" by simp
    with na have "f a \<noteq> f x" by (metis imageI)
    with Cons.IH [OF dx xin] show ?thesis by simp
  qed
qed

lemma unique_slug_lookup:
  "distinct (slugs d) \<Longrightarrow> P \<in> set (posts d) \<Longrightarrow> filter (\<lambda>p. slug p = slug P) (posts d) = [P]"
  unfolding slugs_def by (rule unique_key_lookup)

section \<open>Properties of the listings\<close>

lemma set_newest_first: "set (newest_first ps) = set ps"
  by (simp add: newest_first_def)

lemma descending_newest_first: "descending (newest_first ps)"
proof -
  have "sorted (map (\<lambda>p. - created_at p) (sort_key (\<lambda>p. - created_at p) ps))"
    by (rule sorted_sort_key)
  then show ?thesis
    by (simp add: descending_def newest_first_def sorted_map)
qed

lemma descending_take: "descending ps \<Longrightarrow> descending (take n ps)"
  unfolding descending_def by (rule sorted_wrt_take)

lemma post_list_queryset_set:
  "set (post_list_queryset request d)
     = {p \<in> set (posts d). status p = ''published''
          \<and> (case map_of (rev (GET request)) ''q'' of
                None \<Rightarrow> True
              | Some q \<Rightarrow> q = [] \<or> icontains (title p) q \<or> icontains (content p) q)}"
  by (auto simp: post_list_queryset_def Let_def set_newest_first split: option.splits)

lemma tag_list_queryset_set:
  assumes "tag_list_queryset ts d = Inr ps"
  shows "set ps \<subseteq> {p \<in> set (posts d). status p = ''published''}"
proof (cases "get_object_or_404 (filter (\<lambda>t. t_slug t = ts) (tags d))")
  case (Inl e)
  with assms show ?thesis by (simp add: tag_list_queryset_def)
next
  case (Inr T)
  with assms have "ps = newest_first (remdups (concat (map
            (\<lambda>p. map (\<lambda>a. p) (filter (\<lambda>a. fst a = t_pk T \<and> Some (snd a) = pk p) (tagged d)))
            (filter (\<lambda>p. status p = ''published'') (posts d)))))"
    by (simp add: tag_list_queryset_def)
  then show ?thesis by (auto simp: set_newest_first)
qed

lemma dashboard_set:
  "set (map fst (dashboard_my_posts u d)) = {p \<in> set (posts d). author p = u}"
  by (auto simp: dashboard_my_posts_def set_newest_first comp_def)

text \<open>
  C6. Whatever the query, the post list returns stored posts that are published and no
  other; so does the tag list, whatever the tag. The dashboard returns the posts whose
  author is the current user, all of them, drafts included.
\<close>

theorem listings_published_only:
  "(\<forall>p \<in> set (post_list_queryset request d). p \<in> set (posts d) \<and> status p = ''published'')
   \<and> (\<forall>ps. tag_list_queryset tag_slug d = Inr ps \<longrightarrow>
          (\<forall>p \<in> set ps. p \<in> set (posts d) \<and> status p = ''published''))
   \<and> set (map fst (dashboard_my_posts u d)) = {p \<in> set (posts d). author p = u}"
proof (intro conjI allI impI ballI)
  fix p assume "p \<in> set (post_list_queryset request d)"
  then show "p \<in> set (posts d)" and "status p = ''published''"
    by (simp_all add: post_list_queryset_set)
next
  fix ps p assume "tag_list_queryset tag_slug d = Inr ps" and "p \<in> set ps"
  with tag_list_queryset_set show "p \<in> set (posts d)" and "status p = ''published''"
    by blast+
next
  show "set (map fst (dashboard_my_posts u d)) = {p \<in> set (posts d). author p = u}"
    by (rule dashboard_set)
qed

lemma blog_tag_list: "tag_list_queryset ''news'' blog = Inr [other_post, hello_post]"
  by (simp add: tag_list_queryset_def blog_def newest_first_def
      hello_post_def secret_post_def other_post_def)

lemma blog_post_list: "post_list_queryset anonymous_get blog = [other_post, hello_post]"
  by (simp add: post_list_queryset_def blog_def newest_first_def anonymous_get_def
      hello_post_def secret_post_def other_post_def)

lemma blog_dashboard: "map fst (dashboard_my_posts 1 blog) = [secret_post, hello_post]"
  by (simp add: dashboard_my_posts_def blog_def newest_first_def
      hello_post_def secret_post_def other_post_def)

theorem listings_published_only_witness:
  "status other_post = ''published'' \<and> status hello_post = ''published''
   \<and> secret_post \<in> set (posts blog) \<and> status secret_post = ''draft''
   \<and> secret_post \<notin> set (post_list_queryset anonymous_get blog)
   \<and> {p \<in> set (posts blog). author p = 1} = {secret_post, hello_post}"
proof -
  have m: "other_post \<in> set (post_list_queryset anonymous_get blog)"
    "hello_post \<in> set [other_post, hello_post]"
    by (simp_all add: blog_post_list)
  have n: "secret_post \<in> set (posts blog)" "status secret_post = ''draft''"
    by (simp_all add: blog_def secret_post_def)
  from listings_published_only [of anonymous_get blog "''news''" 1] m blog_tag_list
  have "status other_post = ''published''" "status hello_post = ''published''"
    "{p \<in> set (posts blog). author p = 1} = set (map fst (dashboard_my_posts 1 blog))"
    by blast+
  moreover from listings_published_only [of anonymous_get blog "''news''" 1] n
  have "secret_post \<notin> set (post_list_queryset anonymous_get blog)"
    by auto
  ultimately show ?thesis using n unfolding blog_dashboard by simp
qed

text \<open>
  C9. The post list, the tag list, the dashboard and the recent posts all run from the
  newest post to the oldest. The recent posts are a list of at most \<open>limit\<close> posts for
  every limit from 0 up to, not including, \<open>2\<^sup>6\<^sup>3\<close>; outside that range the call
  raises.
\<close>

theorem listings_newest_first:
  "descending (post_list_queryset request d)
   \<and> (\<forall>ps. tag_list_queryset tag_slug d = Inr ps \<longrightarrow> descending ps)
   \<and> descending (map fst (dashboard_my_posts u d))
   \<and> (\<forall>ps. recent_posts limit d = Inr ps \<longrightarrow> descending ps)
   \<and> (0 \<le> limit \<and> limit < 9223372036854775808 \<longrightarrow>
        (\<exists>ps. recent_posts limit d = Inr ps \<and> length ps \<le> nat limit))
   \<and> (limit < 0 \<longrightarrow> recent_posts limit d = Inl ValueError)
   \<and> (9223372036854775808 \<le> limit \<longrightarrow> recent_posts limit d = Inl LimitOutOfRange)"
proof (intro conjI allI impI)
  show "descending (post_list_queryset request d)"
    by (simp add: post_list_queryset_def Let_def descending_newest_first)
next
  fix ps assume a: "tag_list_queryset tag_slug d = Inr ps"
  show "descending ps"
  proof (cases "get_object_or_404 (filter (\<lambda>t. t_slug t = tag_slug) (tags d))")
    case (Inl e)
    with a show ?thesis by (simp add: tag_list_queryset_def)
  next
    case (Inr T)
    with a show ?thesis by (auto simp: tag_list_queryset_def descending_newest_first)
  qed
next
  have "map fst (dashboard_my_posts u d) = newest_first (filter (\<lambda>p. author p = u) (posts d))"
    by (simp add: dashboard_my_posts_def comp_def)
  then show "descending (map fst (dashboard_my_posts u d))"
    by (simp add: descending_newest_first)
next
  fix ps assume "recent_posts limit d = Inr ps"
  then have "ps = take (nat limit) (newest_first (filter (\<lambda>p. status p = ''published'') (posts d)))"
    by (simp add: recent_posts_def split: if_splits)
  then show "descending ps"
    by (simp add: descending_take descending_newest_first)
next
  assume "0 \<le> limit \<and> limit < 9223372036854775808"
  then show "\<exists>ps. recent_posts limit d = Inr ps \<and> length ps \<le> nat limit"
    by (simp add: recent_posts_def)
next
  assume "limit < 0"
  then show "recent_posts limit d = Inl ValueError" by (simp add: recent_posts_def)
next
  assume "9223372036854775808 \<le> limit"
  then show "recent_posts limit d = Inl LimitOutOfRange" by (simp add: recent_posts_def)
qed

lemma blog_recent: "recent_posts 5 blog = Inr [other_post, hello_post]"
  by (simp add: recent_posts_def blog_def newest_first_def
      hello_post_def secret_post_def other_post_def)

theorem listings_newest_first_witness:
  "descending [other_post, hello_post] \<and> descending [secret_post, hello_post]
   \<and> post_list_queryset anonymous_get blog = [other_post, hello_post]
   \<and> tag_list_queryset ''news'' blog = Inr [other_post, hello_post]
   \<and> map fst (dashboard_my_posts 1 blog) = [secret_post, hello_post]
   \<and> recent_posts 5 blog = Inr [other_post, hello_post]
   \<and> recent_posts 1 blog = Inr [other_post]
   \<and> recent_posts (- 1) blog = Inl ValueError
   \<and> recent_posts 9223372036854775808 blog = Inl LimitOutOfRange
   \<and> created_at other_post = 300 \<and> created_at secret_post = 200 \<and> created_at hello_post = 100"
proof -
  have c: "created_at other_post = 300" "created_at secret_post = 200" "created_at hello_post = 100"
    by (simp_all add: hello_post_def secret_post_def other_post_def)
  have r1: "recent_posts 1 blog = Inr [other_post]"
    by (simp add: recent_posts_def blog_def newest_first_def
        hello_post_def secret_post_def other_post_def)
  from listings_newest_first [of anonymous_get blog "''news''" 1 5] blog_tag_list blog_recent
  have "descending [other_post, hello_post]" "descending (map fst (dashboard_my_posts 1 blog))"
    by blast+
  moreover from listings_newest_first [of anonymous_get blog "''news''" 1 "- 1"]
  have "recent_posts (- 1) blog = Inl ValueError" by simp
  moreover from listings_newest_first [of anonymous_get blog "''news''" 1 9223372036854775808]
  have "recent_posts 9223372036854775808 blog = Inl LimitOutOfRange" by simp
  ultimately show ?thesis
    using blog_tag_list blog_recent blog_post_list r1 c unfolding blog_dashboard by simp
qed










text \<open>When the query string gives \<^verbatim>\<open>q\<close> twice, the last value is the one searched for.\<close>

lemma repeated_key: "map slug (post_list_queryset
    \<lparr>user = AnonymousUser, method = ''GET'', GET = [(''q'', ''hello''), (''q'', ''zzz'')], POST = []\<rparr> blog) = []"
  by code_simp

section \<open>The slug on later saves\<close>

lemma model_save_slug: "model_save now p d = Inr (p', d') \<Longrightarrow> slug p' = slug p"
  by (auto simp: model_save_def Let_def split: option.splits if_splits)

lemma model_save_row:
  assumes "model_save now p d = Inr (p', d')" and "pk p = Some i"
    and "q \<in> set (posts d')" and "pk q = Some i"
  shows "slug q = slug p"
proof (cases "list_ex (\<lambda>q. pk q = Some i) (posts d)")
  case True
  with assms(1,2) have "posts d' = map (\<lambda>q. if pk q = Some i then p' else q) (posts d)"
    and "slug p' = slug p"
    by (auto simp: model_save_def Let_def split: if_splits)
  with assms(3,4) show ?thesis by auto
next
  case False
  with assms(1,2) have "posts d' = posts d @ [p']" and "slug p' = slug p"
    by (auto simp: model_save_def Let_def split: if_splits)
  with assms(3,4) False show ?thesis by (auto simp: list_ex_iff)
qed

lemma model_save_update_succeeds:
  assumes "pk p = Some i" and "\<not> list_ex (\<lambda>q. pk q \<noteq> Some i \<and> slug q = slug p) (posts d)"
  shows "\<exists>p' d'. model_save now p d = Inr (p', d')"
  using assms by (simp add: model_save_def Let_def)

text \<open>
  C8, amended. A save of a post whose slug field is not empty leaves the slug as it is,
  in the instance and in its stored row, whatever the title has become; such a save of
  a stored post succeeds when no other row holds the slug.
\<close>

theorem slug_kept:
  assumes "slug p \<noteq> []"
  shows "(\<forall>p' d'. save slugify now p d = Inr (p', d') \<longrightarrow>
            slug p' = slug p
          \<and> (\<forall>i. pk p = Some i \<longrightarrow> (\<forall>q \<in> set (posts d'). pk q = Some i \<longrightarrow> slug q = slug p)))
       \<and> (\<forall>i. pk p = Some i \<and> \<not> list_ex (\<lambda>q. pk q \<noteq> Some i \<and> slug q = slug p) (posts d) \<longrightarrow>
            (\<exists>p' d'. save slugify now p d = Inr (p', d')))"
proof -
  have s: "save slugify now p d = model_save now p d"
    using assms by (simp add: save_def)
  show ?thesis unfolding s
  proof (intro conjI allI impI ballI)
    fix p' d' assume "model_save now p d = Inr (p', d')"
    then show "slug p' = slug p" by (rule model_save_slug)
  next
    fix p' d' i q
    assume "model_save now p d = Inr (p', d')" and "pk p = Some i"
      and "q \<in> set (posts d')" and "pk q = Some i"
    then show "slug q = slug p" by (rule model_save_row)
  next
    fix i assume "pk p = Some i \<and> \<not> list_ex (\<lambda>q. pk q \<noteq> Some i \<and> slug q = slug p) (posts d)"
    then show "\<exists>p' d'. model_save now p d = Inr (p', d')"
      using model_save_update_succeeds by blast
  qed
qed

lemma retitled_save:
  "save slugify_ascii 900 (hello_post\<lparr>title := ''Goodbye''\<rparr>) blog
     = Inr (hello_post\<lparr>title := ''Goodbye'', updated_at := 900\<rparr>,
            blog\<lparr>posts := [hello_post\<lparr>title := ''Goodbye'', updated_at := 900\<rparr>,
                             secret_post, other_post]\<rparr>)"
  by (simp add: save_def model_save_def Let_def blog_def hello_post_def secret_post_def other_post_def)

theorem slug_kept_witness:
  "slug (hello_post\<lparr>title := ''Goodbye''\<rparr>) \<noteq> []
   \<and> save slugify_ascii 900 (hello_post\<lparr>title := ''Goodbye''\<rparr>) blog
       = Inr (hello_post\<lparr>title := ''Goodbye'', updated_at := 900\<rparr>,
              blog\<lparr>posts := [hello_post\<lparr>title := ''Goodbye'', updated_at := 900\<rparr>,
                               secret_post, other_post]\<rparr>)
   \<and> slug (hello_post\<lparr>title := ''Goodbye'', updated_at := 900\<rparr>) = ''hello-world''"
proof -
  have h: "slug (hello_post\<lparr>title := ''Goodbye''\<rparr>) \<noteq> []" by (simp add: hello_post_def)
  have e: "slug (hello_post\<lparr>title := ''Goodbye''\<rparr>) = ''hello-world''" by (simp add: hello_post_def)
  from slug_kept [OF h, of slugify_ascii 900 blog] retitled_save
  have "slug (hello_post\<lparr>title := ''Goodbye'', updated_at := 900\<rparr>)
          = slug (hello_post\<lparr>title := ''Goodbye''\<rparr>)"
    by blast
  with h e retitled_save show ?thesis by simp
qed

text \<open>
  C8 fails for a title that slugifies to the empty string: the first save stores the
  post under the empty slug, and the next save of the stored post computes the slug again
  and changes it to \<^verbatim>\<open>-2\<close>.
\<close>

theorem empty_slug_recomputed:
  "save slugify_ascii 10 bang_post empty_db
     = Inr (bang_saved, empty_db\<lparr>posts := [bang_saved]\<rparr>)
   \<and> slug bang_saved = []
   \<and> save slugify_ascii 20 bang_saved (empty_db\<lparr>posts := [bang_saved]\<rparr>)
     = Inr (bang_saved\<lparr>slug := ''-2'', updated_at := 20\<rparr>,
            empty_db\<lparr>posts := [bang_saved\<lparr>slug := ''-2'', updated_at := 20\<rparr>]\<rparr>)"
  by code_simp

end
